theory Spec2Isabelle
  imports Main "HOL-Library.AList"
begin

section \<open>Data model of the cache simulator\<close>

text \<open>
  An index, a tag and a dictionary key are binary strings (\<open>BinaryAddress\<close> is a
  subclass of \<open>str\<close>); a field whose bit width is zero is Python's \<open>None\<close>.
\<close>

type_synonym bin_addr = string

text \<open>The exceptions the cache code can raise: a missing dictionary key, \<open>pop\<close> on an empty list.\<close>

datatype error = KeyError | IndexError

datatype ReferenceCacheStatus = hit | miss

text \<open>A block entry is the dictionary \<open>{"tag": .., "index": .., "data": ..}\<close>.\<close>

record block =
  tag :: "bin_addr option"
  index :: "bin_addr option"
  data :: "int list"

text \<open>
  A reference, as far as \<open>cache.py\<close> reads and writes it: \<open>ref.index\<close>, \<open>ref.tag\<close> and
  \<open>ref.cache_status\<close> (\<open>None\<close> until a pass assigns it). The field \<open>status_writes\<close> is
  bookkeeping of the model: it counts the assignments \<open>ref.cache_status = ...\<close> executed
  on this reference, so that statements about how often the field is written can be
  expressed.
\<close>

record Reference =
  ref_index :: "bin_addr option"
  ref_tag :: "bin_addr option"
  word_addr :: int
  cache_status :: "ReferenceCacheStatus option"
  status_writes :: nat

text \<open>
  \<open>class Cache(dict)\<close>: the dictionary itself (set key to list of blocks, as an
  association list read with \<open>map_of\<close> and written with \<open>AList.update\<close>), the list
  \<open>recently_used_addrs\<close> ordered from least to most recently used, and the flag \<open>is_l2\<close>.
\<close>

record Cache =
  sets :: "(bin_addr \<times> block list) list"
  recently_used_addrs :: "(bin_addr option \<times> bin_addr option) list"
  is_l2 :: bool

section \<open>Operations of \<open>cache.py\<close>\<close>

text \<open>\<open>Cache.__init__\<close> with \<open>cache=None\<close>: one empty list per set key. The keys are the
  \<open>BinaryAddress\<close> strings of \<open>range(num_sets)\<close>; \<open>BinaryAddress\<close> is not part of the
  sources, so the keys are a parameter.\<close>

definition new_cache :: "bin_addr list \<Rightarrow> bool \<Rightarrow> Cache" where
  "new_cache keys l2_flag =
     \<lparr>sets = map (\<lambda>k. (k, [])) keys, recently_used_addrs = [], is_l2 = l2_flag\<rparr>"

text \<open>Truth value of a \<open>Cache\<close> object in \<open>if l2_cache and ...\<close>: a \<open>dict\<close> subclass is
  true iff it has at least one key; \<open>None\<close> is false.\<close>

definition cache_truthy :: "Cache option \<Rightarrow> bool" where
  "cache_truthy c = (case c of None \<Rightarrow> False | Some l2 \<Rightarrow> sets l2 \<noteq> [])"

definition mark_ref_as_last_seen :: "Cache \<Rightarrow> Reference \<Rightarrow> Cache" where
  "mark_ref_as_last_seen self ref =
     (let addr_id = (ref_index ref, ref_tag ref);
          addrs = recently_used_addrs self;
          addrs' = (if addr_id \<in> set addrs then remove1 addr_id addrs else addrs)
      in self\<lparr>recently_used_addrs := addrs' @ [addr_id]\<rparr>)"

definition is_hit :: "Cache \<Rightarrow> bin_addr option \<Rightarrow> bin_addr option \<Rightarrow> error + bool" where
  "is_hit self addr_index addr_tag =
     (case addr_index of
        None \<Rightarrow>
          (case map_of (sets self) ''0'' of
             None \<Rightarrow> Inl KeyError
           | Some blocks \<Rightarrow> Inr (list_ex (\<lambda>b. tag b = addr_tag) blocks))
      | Some k \<Rightarrow>
          (case map_of (sets self) k of
             Some blocks \<Rightarrow> Inr (list_ex (\<lambda>b. tag b = addr_tag) blocks)
           | None \<Rightarrow> Inr False))"

text \<open>\<open>replace_block\<close>: the inner loop over \<open>enumerate(blocks)\<close> replaces the first block
  that passes the test and reports whether it did; the outer loop walks the recency
  pairs in the order the policy gives and stops at the first replacement.\<close>

fun replace_first ::
  "bin_addr option \<Rightarrow> bin_addr option \<Rightarrow> bin_addr option \<Rightarrow> block list \<Rightarrow> block \<Rightarrow> block list option"
where
  "replace_first recent_index recent_tag addr_index [] new_entry = None"
| "replace_first recent_index recent_tag addr_index (b # bs) new_entry =
     (if recent_index = addr_index \<and> tag b = recent_tag then Some (new_entry # bs)
      else map_option ((#) b) (replace_first recent_index recent_tag addr_index bs new_entry))"

fun replace_scan ::
  "(bin_addr option \<times> bin_addr option) list \<Rightarrow> bin_addr option \<Rightarrow> block list \<Rightarrow> block \<Rightarrow> block list"
where
  "replace_scan [] addr_index blocks new_entry = blocks"
| "replace_scan ((recent_index, recent_tag) # rest) addr_index blocks new_entry =
     (case replace_first recent_index recent_tag addr_index blocks new_entry of
        Some blocks' \<Rightarrow> blocks'
      | None \<Rightarrow> replace_scan rest addr_index blocks new_entry)"

definition replace_block ::
  "Cache \<Rightarrow> block list \<Rightarrow> string \<Rightarrow> bin_addr option \<Rightarrow> block \<Rightarrow> block list" where
  "replace_block self blocks replacement_policy addr_index new_entry =
     (let addrs = (if replacement_policy = ''mru'' then rev (recently_used_addrs self)
                   else recently_used_addrs self)
      in replace_scan addrs addr_index blocks new_entry)"

text \<open>The key \<open>set_block\<close> reads: \<open>self["0"]\<close> for an undefined index, \<open>self[addr_index]\<close>
  otherwise.\<close>

definition set_key :: "bin_addr option \<Rightarrow> bin_addr" where
  "set_key addr_index = (case addr_index of None \<Rightarrow> ''0'' | Some k \<Rightarrow> k)"

text \<open>
  \<open>set_block\<close>. The result is the updated store and the updated next-level store. The
  call made on the next level passes no \<open>l2_cache\<close>, so the recursion is at most one
  deep. The two stores are distinct objects, as in \<open>run_simulation\<close>.
\<close>

function set_block ::
  "Cache \<Rightarrow> string \<Rightarrow> int \<Rightarrow> bin_addr option \<Rightarrow> block \<Rightarrow> Cache option
     \<Rightarrow> error + (Cache \<times> Cache option)"
where
  "set_block self replacement_policy num_blocks_per_set addr_index new_entry None =
     (case map_of (sets self) (set_key addr_index) of
        None \<Rightarrow> Inl KeyError
      | Some blocks \<Rightarrow>
          if int (length blocks) = num_blocks_per_set then
            (case blocks of
               [] \<Rightarrow> Inl IndexError
             | evicted_entry # rest \<Rightarrow>
                 Inr (self\<lparr>sets := AList.update (set_key addr_index) (rest @ [new_entry]) (sets self)\<rparr>,
                      None))
          else
            Inr (self\<lparr>sets := AList.update (set_key addr_index) (blocks @ [new_entry]) (sets self)\<rparr>,
                 None))"
| "set_block self replacement_policy num_blocks_per_set addr_index new_entry (Some l2_cache) =
     (case map_of (sets self) (set_key addr_index) of
        None \<Rightarrow> Inl KeyError
      | Some blocks \<Rightarrow>
          if int (length blocks) = num_blocks_per_set then
            (case blocks of
               [] \<Rightarrow> Inl IndexError
             | evicted_entry # rest \<Rightarrow>
                 if cache_truthy (Some l2_cache) \<and> \<not> is_l2 self then
                   (case set_block l2_cache replacement_policy num_blocks_per_set
                           (index evicted_entry) evicted_entry None of
                      Inl e \<Rightarrow> Inl e
                    | Inr (l2_cache', _) \<Rightarrow>
                        Inr (self\<lparr>sets := AList.update (set_key addr_index) (rest @ [new_entry]) (sets self)\<rparr>,
                             Some l2_cache'))
                 else
                   Inr (self\<lparr>sets := AList.update (set_key addr_index) (rest @ [new_entry]) (sets self)\<rparr>,
                        Some l2_cache))
          else
            Inr (self\<lparr>sets := AList.update (set_key addr_index) (blocks @ [new_entry]) (sets self)\<rparr>,
                 Some l2_cache))"
  by pat_completeness auto
termination
  by (relation "measure (\<lambda>(self, pol, n, i, e, l2). case l2 of None \<Rightarrow> 0 | Some _ \<Rightarrow> 1)") auto

definition get_block :: "Cache \<Rightarrow> bin_addr option \<Rightarrow> bin_addr option \<Rightarrow> block option" where
  "get_block self addr_index addr_tag =
     (case addr_index of
        None \<Rightarrow> None
      | Some k \<Rightarrow>
          (case map_of (sets self) k of
             None \<Rightarrow> None
           | Some blocks \<Rightarrow> find (\<lambda>b. tag b = addr_tag) blocks))"

text \<open>
  Modelled from the spec: \<open>Reference.get_cache_entry\<close> is not part of the sources. The
  spec's block entry is \<open>{tag, index, data}\<close>, the reference's materialised block
  carrying its tag and its index; the data are the word values of the block that
  holds the reference's word address. The cache code never inspects the data.
\<close>

definition get_cache_entry :: "Reference \<Rightarrow> int \<Rightarrow> block" where
  "get_cache_entry ref num_words_per_block =
     \<lparr>tag = ref_tag ref, index = ref_index ref,
      data = map (\<lambda>i. word_addr ref - word_addr ref mod num_words_per_block + int i)
               [0 ..< nat num_words_per_block]\<rparr>"

text \<open>Assignment to \<open>ref.cache_status\<close>.\<close>

definition set_status :: "Reference \<Rightarrow> ReferenceCacheStatus \<Rightarrow> Reference" where
  "set_status ref s = ref\<lparr>cache_status := Some s, status_writes := Suc (status_writes ref)\<rparr>"

text \<open>The body of the loop of \<open>read_refs\<close>, for one reference.\<close>

definition read_ref ::
  "Cache \<Rightarrow> int \<Rightarrow> int \<Rightarrow> string \<Rightarrow> Reference \<Rightarrow> Cache option
     \<Rightarrow> error + (Cache \<times> Cache option \<times> Reference)" where
  "read_ref self num_blocks_per_set num_words_per_block replacement_policy ref l2_cache =
     (let self1 = mark_ref_as_last_seen self ref in
      case is_hit self1 (ref_index ref) (ref_tag ref) of
        Inl e \<Rightarrow> Inl e
      | Inr True \<Rightarrow> Inr (self1, l2_cache, set_status ref hit)
      | Inr False \<Rightarrow>
          (case set_block self1 replacement_policy num_blocks_per_set (ref_index ref)
                  (get_cache_entry ref num_words_per_block) l2_cache of
             Inl e \<Rightarrow> Inl e
           | Inr (self2, l2_cache1) \<Rightarrow>
               (case l2_cache1 of
                  None \<Rightarrow> Inr (self2, None, set_status ref miss)
                | Some l2 \<Rightarrow>
                    if cache_truthy (Some l2) then
                      (case is_hit l2 (ref_index ref) (ref_tag ref) of
                         Inl e \<Rightarrow> Inl e
                       | Inr True \<Rightarrow> Inr (self2, Some l2, set_status ref miss)
                       | Inr False \<Rightarrow>
                           (case set_block l2 replacement_policy num_blocks_per_set (ref_index ref)
                                   (get_cache_entry ref num_words_per_block) None of
                              Inl e \<Rightarrow> Inl e
                            | Inr (l2', _) \<Rightarrow> Inr (self2, Some l2', set_status ref miss)))
                    else Inr (self2, Some l2, set_status ref miss))))"

text \<open>
  \<open>read_refs\<close>: the loop over the references, in input order. The function has no
  \<open>return\<close> statement, so the value it hands to its caller is Python's \<open>None\<close>:
  the component \<open>returned\<close> of the result, of type \<open>int option\<close>.
\<close>

record read_refs_result =
  l1_out :: Cache
  l2_out :: "Cache option"
  refs_out :: "Reference list"
  returned :: "int option"

fun read_refs ::
  "Cache \<Rightarrow> int \<Rightarrow> int \<Rightarrow> string \<Rightarrow> Reference list \<Rightarrow> Cache option
     \<Rightarrow> error + read_refs_result" where
  "read_refs self num_blocks_per_set num_words_per_block replacement_policy [] l2_cache =
     Inr \<lparr>l1_out = self, l2_out = l2_cache, refs_out = [], returned = None\<rparr>"
| "read_refs self num_blocks_per_set num_words_per_block replacement_policy (ref # refs) l2_cache =
     (case read_ref self num_blocks_per_set num_words_per_block replacement_policy ref l2_cache of
        Inl e \<Rightarrow> Inl e
      | Inr (self', l2_cache', ref') \<Rightarrow>
          (case read_refs self' num_blocks_per_set num_words_per_block replacement_policy refs l2_cache' of
             Inl e \<Rightarrow> Inl e
           | Inr r \<Rightarrow> Inr (r\<lparr>refs_out := ref' # refs_out r\<rparr>)))"

section \<open>The two passes of \<open>run_simulation\<close>\<close>

text \<open>
  \<open>run_simulation\<close> from the construction of the caches on: the L1+L2 pass, then the
  L1-only pass over the same reference objects. The set keys and the references come
  from \<open>BinaryAddress\<close> and \<open>Reference\<close>, which are not part of the sources, and are
  parameters here; the table output between the passes is left out.
\<close>

record simulation_result =
  total_cycles_with_l2 :: "int option"
  total_cycles_with_l1_only :: "int option"
  refs_after_l2_pass :: "Reference list"
  refs_after_l1_only_pass :: "Reference list"
  l1_cache :: Cache
  l2_cache :: "Cache option"
  l1_cache_only :: Cache

definition run_simulation ::
  "int \<Rightarrow> int \<Rightarrow> string \<Rightarrow> bin_addr list \<Rightarrow> Reference list \<Rightarrow> error + simulation_result" where
  "run_simulation num_blocks_per_set num_words_per_block replacement_policy keys refs =
     (case read_refs (new_cache keys False) num_blocks_per_set num_words_per_block
             replacement_policy refs (Some (new_cache keys True)) of
        Inl e \<Rightarrow> Inl e
      | Inr r1 \<Rightarrow>
          (case read_refs (new_cache keys False) num_blocks_per_set num_words_per_block
                  replacement_policy (refs_out r1) None of
             Inl e \<Rightarrow> Inl e
           | Inr r2 \<Rightarrow>
               Inr \<lparr>total_cycles_with_l2 = returned r1,
                    total_cycles_with_l1_only = returned r2,
                    refs_after_l2_pass = refs_out r1,
                    refs_after_l1_only_pass = refs_out r2,
                    l1_cache = l1_out r1, l2_cache = l2_out r1, l1_cache_only = l1_out r2\<rparr>))"

section \<open>Auxiliary notions for the statements\<close>

text \<open>The list a set holds after \<open>set_block\<close> has inserted \<open>new_entry\<close> into it: the
  first block is dropped when the set holds exactly \<open>num_blocks_per_set\<close> blocks.\<close>

definition pushed :: "int \<Rightarrow> block list \<Rightarrow> block \<Rightarrow> block list" where
  "pushed n blocks new_entry =
     (if int (length blocks) = n then tl blocks else blocks) @ [new_entry]"

text \<open>The store with the list of one of its sets replaced.\<close>

definition store_set :: "Cache \<Rightarrow> bin_addr \<Rightarrow> block list \<Rightarrow> Cache" where
  "store_set self k blocks = self\<lparr>sets := AList.update k blocks (sets self)\<rparr>"

text \<open>A reference before any pass has processed it: no status assigned yet.\<close>

definition fresh_ref :: "bin_addr option \<Rightarrow> bin_addr option \<Rightarrow> int \<Rightarrow> Reference" where
  "fresh_ref i t a =
     \<lparr>ref_index = i, ref_tag = t, word_addr = a, cache_status = None, status_writes = 0\<rparr>"

text \<open>Example data: a fully associative store (one set, keyed \<open>"0"\<close>) holding the block
  of word address 5, and the references of the word addresses 5, 6, 5, 7 with three
  address bits and no index or offset bits.\<close>

definition example_store :: Cache where
  "example_store =
     \<lparr>sets = [(''0'', [\<lparr>tag = Some ''101'', index = None, data = [5]\<rparr>])],
      recently_used_addrs = [(None, Some ''101'')], is_l2 = False\<rparr>"

definition refs_5_6_5_7 :: "Reference list" where
  "refs_5_6_5_7 = [fresh_ref None (Some ''101'') 5, fresh_ref None (Some ''110'') 6,
                   fresh_ref None (Some ''101'') 5, fresh_ref None (Some ''111'') 7]"

text \<open>The top-level store of the run 5, 6, 5, 7 (two blocks per set) at the moment the
  reference 7 has been marked and found missing: the set holds the blocks of 5 and 6,
  in insertion order, and 6 is the least recently used pair.\<close>

definition store_at_miss_of_7 :: Cache where
  "store_at_miss_of_7 =
     \<lparr>sets = [(''0'', [\<lparr>tag = Some ''101'', index = None, data = [5]\<rparr>,
                      \<lparr>tag = Some ''110'', index = None, data = [6]\<rparr>])],
      recently_used_addrs = [(None, Some ''110''), (None, Some ''101''), (None, Some ''111'')],
      is_l2 = False\<rparr>"

text \<open>Every set of the store holds at most \<open>n\<close> blocks.\<close>

definition within_capacity :: "int \<Rightarrow> Cache \<Rightarrow> bool" where
  "within_capacity n c = (\<forall>(k, blocks) \<in> set (sets c). int (length blocks) \<le> n)"

text \<open>A sequence of \<open>set_block\<close> calls on the same pair of stores, with a fixed
  \<open>num_blocks_per_set\<close>; the first call that raises ends the sequence.\<close>

fun set_blocks ::
  "Cache \<Rightarrow> string \<Rightarrow> int \<Rightarrow> (bin_addr option \<times> block) list \<Rightarrow> Cache option
     \<Rightarrow> error + (Cache \<times> Cache option)" where
  "set_blocks self pol n [] l2 = Inr (self, l2)"
| "set_blocks self pol n ((addr_index, new_entry) # rest) l2 =
     (case set_block self pol n addr_index new_entry l2 of
        Inl e \<Rightarrow> Inl e
      | Inr (self', l2') \<Rightarrow> set_blocks self' pol n rest l2')"

text \<open>A direct-mapped store with the two sets \<open>"0"\<close> and \<open>"1"\<close>, set \<open>"1"\<close> empty.\<close>

definition two_set_store ::
  "block list \<Rightarrow> (bin_addr option \<times> bin_addr option) list \<Rightarrow> bool \<Rightarrow> Cache" where
  "two_set_store blocks0 addrs l2_flag =
     \<lparr>sets = [(''0'', blocks0), (''1'', [])], recently_used_addrs = addrs, is_l2 = l2_flag\<rparr>"

text \<open>The blocks of the word addresses 0 and 2 with two address bits, one index bit
  and no offset bit: both have index \<open>"0"\<close>; their tags are \<open>"0"\<close> and \<open>"1"\<close>.\<close>

definition block_0 :: block where
  "block_0 = \<lparr>tag = Some ''0'', index = Some ''0'', data = [0]\<rparr>"

definition block_2 :: block where
  "block_2 = \<lparr>tag = Some ''1'', index = Some ''0'', data = [2]\<rparr>"

text \<open>The tags within every set of the store are pairwise distinct.\<close>

definition tags_distinct :: "Cache \<Rightarrow> bool" where
  "tags_distinct c = (\<forall>(k, blocks) \<in> set (sets c). distinct (map tag blocks))"

text \<open>Every set of the store is empty, as after construction.\<close>

definition all_sets_empty :: "Cache \<Rightarrow> bool" where
  "all_sets_empty c = (\<forall>(k, blocks) \<in> set (sets c). blocks = [])"

text \<open>The relation the cycle totals are claimed to satisfy: both are integers and the
  first is at most the second. A total that is \<open>None\<close> is in no such relation.\<close>

definition totals_ordered :: "int option \<Rightarrow> int option \<Rightarrow> bool" where
  "totals_ordered t1 t2 =
     (case t1 of None \<Rightarrow> False
      | Some a \<Rightarrow> (case t2 of None \<Rightarrow> False | Some b \<Rightarrow> a \<le> b))"

text \<open>Every block is stored in the set its own index selects.\<close>

definition keyed :: "Cache \<Rightarrow> bool" where
  "keyed c = (\<forall>(k, blocks) \<in> set (sets c). \<forall>b \<in> set blocks. set_key (index b) = k)"

text \<open>The tag at position \<open>i\<close> of the first list occurs in the second list at no
  position after \<open>i\<close>.\<close>

fun tags_not_behind :: "block list \<Rightarrow> block list \<Rightarrow> bool" where
  "tags_not_behind [] bs = True"
| "tags_not_behind (a # as) bs = (tag a \<notin> tag ` set (tl bs) \<and> tags_not_behind as (tl bs))"

text \<open>
  How a set of the top-level store and the set with the same key of its next level
  are related while \<open>read_refs\<close> runs on stores that started empty: until the
  top-level set is full, both hold the same blocks; once it is full, the next-level
  set has the same length and no block of the top-level set is further from eviction
  in the next level than in the top level.
\<close>

definition coupled_sets :: "int \<Rightarrow> block list \<Rightarrow> block list \<Rightarrow> bool" where
  "coupled_sets n as bs =
     (if int (length as) = n then length bs = length as \<and> tags_not_behind as bs else bs = as)"

definition coupled :: "int \<Rightarrow> Cache \<Rightarrow> Cache \<Rightarrow> bool" where
  "coupled n l1 l2 =
     (\<forall>k as bs. map_of (sets l1) k = Some as \<longrightarrow> map_of (sets l2) k = Some bs \<longrightarrow>
        (if is_l2 l1 then bs = as else coupled_sets n as bs))"

text \<open>The invariant of \<open>read_refs\<close> on a store and its optional next level.\<close>

definition hierarchy_inv :: "int \<Rightarrow> Cache \<Rightarrow> Cache option \<Rightarrow> bool" where
  "hierarchy_inv n l1 l2o =
     (tags_distinct l1 \<and> keyed l1 \<and>
      (case l2o of None \<Rightarrow> True | Some l2 \<Rightarrow> tags_distinct l2 \<and> coupled n l1 l2))"

section \<open>Basic facts about \<open>set_block\<close> and \<open>read_refs\<close>\<close>

declare set_block.simps [simp del]

lemmas run_defs = refs_5_6_5_7_def fresh_ref_def new_cache_def read_ref_def
  mark_ref_as_last_seen_def is_hit_def set_block.simps set_key_def get_cache_entry_def
  set_status_def cache_truthy_def Let_def

text \<open>What a completed \<open>set_block\<close> without a next level did.\<close>

lemma set_block_last:
  assumes "set_block self pol n idx e None = Inr (self', l2o')"
  shows "\<exists>blocks. map_of (sets self) (set_key idx) = Some blocks \<and> l2o' = None \<and>
           (int (length blocks) = n \<longrightarrow> blocks \<noteq> []) \<and>
           self' = store_set self (set_key idx) (pushed n blocks e)"
proof (cases "map_of (sets self) (set_key idx)")
  case None
  with assms[unfolded set_block.simps(1)] show ?thesis by simp
next
  case (Some blocks)
  show ?thesis
  proof (cases blocks)
    case Nil
    with Some assms[unfolded set_block.simps(1)] show ?thesis
      by (simp add: pushed_def store_set_def split: if_splits)
  next
    case (Cons b bs)
    with Some assms[unfolded set_block.simps(1)] show ?thesis
      by (simp add: pushed_def store_set_def split: if_splits)
  qed
qed

text \<open>What a completed \<open>set_block\<close> with a next-level store did.\<close>

lemma set_block_next:
  assumes "set_block self pol n idx e (Some l2) = Inr (self', l2o')"
  shows "\<exists>blocks. map_of (sets self) (set_key idx) = Some blocks \<and>
           (int (length blocks) = n \<longrightarrow> blocks \<noteq> []) \<and>
           self' = store_set self (set_key idx) (pushed n blocks e) \<and>
           (if int (length blocks) = n \<and> sets l2 \<noteq> [] \<and> \<not> is_l2 self
            then \<exists>l2'. set_block l2 pol n (index (hd blocks)) (hd blocks) None = Inr (l2', None) \<and>
                       l2o' = Some l2'
            else l2o' = Some l2)"
proof (cases "map_of (sets self) (set_key idx)")
  case None
  with assms[unfolded set_block.simps(2)] show ?thesis by simp
next
  case (Some blocks)
  show ?thesis
  proof (cases "int (length blocks) = n")
    case False
    with Some assms[unfolded set_block.simps(2)] show ?thesis
      by (simp add: pushed_def store_set_def)
  next
    case True
    show ?thesis
    proof (cases blocks)
      case Nil
      with Some True assms[unfolded set_block.simps(2)] show ?thesis by simp
    next
      case (Cons b bs)
      show ?thesis
      proof (cases "sets l2 \<noteq> [] \<and> \<not> is_l2 self")
        case False
        with Some True Cons assms[unfolded set_block.simps(2)] show ?thesis
          by (auto simp: pushed_def store_set_def cache_truthy_def)
      next
        case wb: True
        show ?thesis
        proof (cases "set_block l2 pol n (index b) b None")
          case (Inl err)
          with Some True Cons wb assms[unfolded set_block.simps(2)] show ?thesis
            by (simp add: cache_truthy_def)
        next
          case (Inr res)
          obtain l2' x where res: "res = (l2', x)" by (cases res)
          from set_block_last[of l2 pol n "index b" b l2' x] Inr res have "x = None" by auto
          with Some True Cons wb assms[unfolded set_block.simps(2)] Inr res show ?thesis
            by (simp add: pushed_def store_set_def cache_truthy_def)
        qed
      qed
    qed
  qed
qed

lemma set_block_frame:
  assumes "set_block s pol n i e l = Inr (s', l')"
  shows "recently_used_addrs s' = recently_used_addrs s \<and> is_l2 s' = is_l2 s"
proof (cases l)
  case None
  with assms set_block_last[of s pol n i e s' l'] show ?thesis
    by (auto simp: store_set_def)
next
  case (Some l2)
  with assms set_block_next[of s pol n i e l2 s' l'] show ?thesis
    by (auto simp: store_set_def)
qed

lemma mark_frame:
  "is_l2 (mark_ref_as_last_seen self ref) = is_l2 self"
  "sets (mark_ref_as_last_seen self ref) = sets self"
  by (simp_all add: mark_ref_as_last_seen_def Let_def)

lemma read_ref_recency:
  assumes "read_ref self n w pol ref l2 = Inr (self', l2', ref')"
  shows "recently_used_addrs self' = recently_used_addrs (mark_ref_as_last_seen self ref)
     \<and> is_l2 self' = is_l2 self"
  using assms unfolding read_ref_def Let_def
  by (auto split: sum.splits bool.splits option.splits if_splits prod.splits
           dest!: set_block_frame simp: mark_frame)

lemma read_refs_unfold:
  assumes "read_refs self n w pol (ref # refs) l2 = Inr r"
  obtains self' l2' ref' r' where
    "read_ref self n w pol ref l2 = Inr (self', l2', ref')"
    "read_refs self' n w pol refs l2' = Inr r'"
    "r = r'\<lparr>refs_out := ref' # refs_out r'\<rparr>"
  using assms by (auto split: sum.splits prod.splits)

lemma foldl_mark_recency_cong:
  "recently_used_addrs a = recently_used_addrs b \<Longrightarrow>
     recently_used_addrs (foldl mark_ref_as_last_seen a refs) =
     recently_used_addrs (foldl mark_ref_as_last_seen b refs)"
  by (induction refs arbitrary: a b) (auto simp: mark_ref_as_last_seen_def Let_def)

lemma read_refs_recency:
  "read_refs self n w pol refs l2 = Inr r \<Longrightarrow>
     recently_used_addrs (l1_out r) = recently_used_addrs (foldl mark_ref_as_last_seen self refs)"
proof (induction refs arbitrary: self l2 r)
  case Nil
  then show ?case by auto
next
  case (Cons ref refs)
  from Cons.prems obtain self' l2' ref' r' where
    step: "read_ref self n w pol ref l2 = Inr (self', l2', ref')" and
    rest: "read_refs self' n w pol refs l2' = Inr r'" and
    r: "r = r'\<lparr>refs_out := ref' # refs_out r'\<rparr>"
    by (rule read_refs_unfold)
  from read_ref_recency[OF step]
  have "recently_used_addrs self' = recently_used_addrs (mark_ref_as_last_seen self ref)"
    by simp
  from foldl_mark_recency_cong[OF this] Cons.IH[OF rest] r show ?case by simp
qed

lemma read_refs_returned:
  "read_refs self n w pol refs l2 = Inr r \<Longrightarrow> returned r = None"
  by (induction refs arbitrary: self l2 r) (auto split: sum.splits prod.splits)

section \<open>Lookups\<close>

text \<open>
  C9. For an index value that is not a key of the store, \<open>is_hit\<close> returns
  \<open>False\<close> without raising and \<open>get_block\<close> returns \<open>None\<close>, whatever the tag.
  (\<open>get_block\<close> has no raising path at all: its model is a total function into
  \<open>block option\<close>.)
\<close>

theorem absent_index_is_clean_miss:
  "map_of (sets self) k = None \<Longrightarrow>
     is_hit self (Some k) addr_tag = Inr False \<and> get_block self (Some k) addr_tag = None"
  by (simp add: is_hit_def get_block_def)

theorem absent_index_is_clean_miss_witness:
  "map_of (sets example_store) ''1'' = None \<and>
   is_hit example_store (Some ''1'') (Some ''101'') = Inr False \<and>
   get_block example_store (Some ''1'') (Some ''101'') = None"
  using absent_index_is_clean_miss [of example_store "''1''" "Some ''101''"]
  by (simp add: example_store_def)

text \<open>
  The undefined index \<open>None\<close> is not such an index value: \<open>is_hit\<close> redirects it to
  the key \<open>"0"\<close> (see C10), and raises \<open>KeyError\<close> on a store that has no set with
  that key.
\<close>

lemma is_hit_undefined_index_without_set_0:
  "is_hit (new_cache [''00'', ''01'', ''10'', ''11''] False) None addr_tag = Inl KeyError"
  by (simp add: is_hit_def new_cache_def)

text \<open>
  C10. With an undefined index (\<open>None\<close>), \<open>get_block\<close> returns \<open>None\<close> for every
  store and tag, while \<open>is_hit\<close> reads the set keyed \<open>"0"\<close>: when that set holds a
  block with the tag, \<open>is_hit\<close> is true although \<open>get_block\<close> finds nothing.
\<close>

theorem undefined_index_get_block_none_is_hit_reads_set_0:
  "get_block self None addr_tag = None \<and>
   (map_of (sets self) ''0'' = Some blocks \<longrightarrow>
      is_hit self None addr_tag = Inr (\<exists>b \<in> set blocks. tag b = addr_tag))"
  by (simp add: is_hit_def get_block_def list_ex_iff)

theorem undefined_index_witness:
  "map_of (sets example_store) ''0'' = Some [\<lparr>tag = Some ''101'', index = None, data = [5]\<rparr>] \<and>
   is_hit example_store None (Some ''101'') = Inr True \<and>
   get_block example_store None (Some ''101'') = None"
  using undefined_index_get_block_none_is_hit_reads_set_0
    [of example_store "Some ''101''" "[\<lparr>tag = Some ''101'', index = None, data = [5]\<rparr>]"]
  by (simp add: example_store_def)

section \<open>Recency list\<close>

text \<open>
  C8. \<open>read_refs\<close> calls \<open>mark_ref_as_last_seen\<close> on the top-level store for every
  reference, whether it then hits or misses: after one reference the recency list is
  the marked one, and after the whole sequence it is the list obtained by marking each
  reference in order. Marking puts the pair \<open>(index, tag)\<close> at the end of the list:
  appended when it was absent, removed from its place and appended when it was
  present; a list without repetitions stays without repetitions.
\<close>

theorem mark_seen_for_every_reference:
  "(read_refs self n w pol refs l2 = Inr r \<longrightarrow>
      recently_used_addrs (l1_out r) = recently_used_addrs (foldl mark_ref_as_last_seen self refs))
   \<and> (read_ref self n w pol ref l2 = Inr (self', l2', ref') \<longrightarrow>
      recently_used_addrs self' = recently_used_addrs (mark_ref_as_last_seen self ref))
   \<and> last (recently_used_addrs (mark_ref_as_last_seen self ref)) = (ref_index ref, ref_tag ref)
   \<and> ((ref_index ref, ref_tag ref) \<notin> set (recently_used_addrs self) \<longrightarrow>
        recently_used_addrs (mark_ref_as_last_seen self ref) =
          recently_used_addrs self @ [(ref_index ref, ref_tag ref)])
   \<and> ((ref_index ref, ref_tag ref) \<in> set (recently_used_addrs self) \<longrightarrow>
        recently_used_addrs (mark_ref_as_last_seen self ref) =
          remove1 (ref_index ref, ref_tag ref) (recently_used_addrs self) @ [(ref_index ref, ref_tag ref)])
   \<and> (distinct (recently_used_addrs self) \<longrightarrow>
        distinct (recently_used_addrs (mark_ref_as_last_seen self ref)))"
proof -
  have "read_ref self n w pol ref l2 = Inr (self', l2', ref') \<longrightarrow>
      recently_used_addrs self' = recently_used_addrs (mark_ref_as_last_seen self ref)"
    using read_ref_recency by blast
  moreover have "read_refs self n w pol refs l2 = Inr r \<longrightarrow>
      recently_used_addrs (l1_out r) = recently_used_addrs (foldl mark_ref_as_last_seen self refs)"
    using read_refs_recency by blast
  ultimately show ?thesis
    by (simp add: mark_ref_as_last_seen_def Let_def)
qed

theorem mark_seen_for_every_reference_witness:
  "read_refs (new_cache [''0''] False) 1 1 ''lru''
      [fresh_ref None (Some ''101'') 5, fresh_ref None (Some ''101'') 5] None =
     Inr \<lparr>l1_out = \<lparr>sets = [(''0'', [\<lparr>tag = Some ''101'', index = None, data = [5]\<rparr>])],
                      recently_used_addrs = [(None, Some ''101'')], is_l2 = False\<rparr>,
          l2_out = None,
          refs_out = [\<lparr>ref_index = None, ref_tag = Some ''101'', word_addr = 5,
                        cache_status = Some miss, status_writes = 1\<rparr>,
                      \<lparr>ref_index = None, ref_tag = Some ''101'', word_addr = 5,
                        cache_status = Some hit, status_writes = 1\<rparr>],
          returned = None\<rparr> \<and>
   recently_used_addrs (foldl mark_ref_as_last_seen (new_cache [''0''] False)
      [fresh_ref None (Some ''101'') 5, fresh_ref None (Some ''101'') 5]) = [(None, Some ''101'')] \<and>
   (None, Some ''110'') \<notin> set (recently_used_addrs example_store) \<and>
   recently_used_addrs (mark_ref_as_last_seen example_store (fresh_ref None (Some ''110'') 6)) =
     [(None, Some ''101''), (None, Some ''110'')] \<and>
   (None, Some ''101'') \<in> set (recently_used_addrs example_store) \<and>
   distinct (recently_used_addrs example_store) \<and>
   recently_used_addrs (mark_ref_as_last_seen example_store (fresh_ref None (Some ''101'') 5)) =
     [(None, Some ''101'')]"
  using mark_seen_for_every_reference
          [of "new_cache [''0''] False" 1 1 "''lru''"
              "[fresh_ref None (Some ''101'') 5, fresh_ref None (Some ''101'') 5]" None _
              "fresh_ref None (Some ''110'') 6" _ _ _]
        mark_seen_for_every_reference
          [of example_store 1 1 "''lru''" "[]" None _ "fresh_ref None (Some ''101'') 5" _ _ _]
  by (simp add: run_defs example_store_def)

section \<open>Victim selection\<close>

text \<open>
  C1. The specification says that the entry evicted from a full set is the first block of the
  set matched by the scan of the recency list. \<open>set_block\<close> does not scan: it removes
  the first block of the set (\<open>blocks.pop(0)\<close>), the one inserted longest ago, and
  never calls \<open>replace_block\<close>. In the run 5, 6, 5, 7 with two blocks per set and policy
  \<open>lru\<close>, \<open>set_block\<close> evicts the block of 5 when 7 misses, although 5 was used after
  6; the scan of \<open>replace_block\<close> on the same state replaces the block of 6.
\<close>

theorem set_block_evicts_first_inserted_block:
  "map_sum id (\<lambda>r. mark_ref_as_last_seen (l1_out r) (fresh_ref None (Some ''111'') 7))
      (read_refs (new_cache [''0''] False) 2 1 ''lru'' (take 3 refs_5_6_5_7) None) =
     Inr store_at_miss_of_7 \<and>
   is_hit store_at_miss_of_7 None (Some ''111'') = Inr False \<and>
   set_block store_at_miss_of_7 ''lru'' 2 None \<lparr>tag = Some ''111'', index = None, data = [7]\<rparr> None =
     Inr (store_at_miss_of_7
            \<lparr>sets := [(''0'', [\<lparr>tag = Some ''110'', index = None, data = [6]\<rparr>,
                              \<lparr>tag = Some ''111'', index = None, data = [7]\<rparr>])]\<rparr>, None) \<and>
   replace_block store_at_miss_of_7
       [\<lparr>tag = Some ''101'', index = None, data = [5]\<rparr>,
        \<lparr>tag = Some ''110'', index = None, data = [6]\<rparr>]
       ''lru'' None \<lparr>tag = Some ''111'', index = None, data = [7]\<rparr> =
     [\<lparr>tag = Some ''101'', index = None, data = [5]\<rparr>,
      \<lparr>tag = Some ''111'', index = None, data = [7]\<rparr>]"
  by (simp add: run_defs store_at_miss_of_7_def replace_block_def)

section \<open>Cycle totals\<close>

text \<open>
  C5. The specification says \<open>read_refs\<close> returns an integer cycle total. \<open>read_refs\<close> has no
  \<open>return\<close> statement: whenever it completes, the value it returns is \<open>None\<close>, and
  both totals \<open>run_simulation\<close> reports are \<open>None\<close>.
\<close>

theorem read_refs_returns_None:
  "(read_refs self n w pol refs l2 = Inr r \<longrightarrow> returned r = None) \<and>
   (run_simulation n w pol keys refs = Inr out \<longrightarrow>
      total_cycles_with_l2 out = None \<and> total_cycles_with_l1_only out = None)"
  by (auto simp: run_simulation_def read_refs_returned split: sum.splits)

theorem read_refs_returns_None_witness:
  "\<not> isl (read_refs (new_cache [''0''] False) 2 1 ''lru'' refs_5_6_5_7 (Some (new_cache [''0''] True))) \<and>
   returned (projr (read_refs (new_cache [''0''] False) 2 1 ''lru'' refs_5_6_5_7
                      (Some (new_cache [''0''] True)))) = None \<and>
   \<not> isl (run_simulation 2 1 ''lru'' [''0''] refs_5_6_5_7) \<and>
   total_cycles_with_l2 (projr (run_simulation 2 1 ''lru'' [''0''] refs_5_6_5_7)) = None \<and>
   total_cycles_with_l1_only (projr (run_simulation 2 1 ''lru'' [''0''] refs_5_6_5_7)) = None"
proof -
  have a: "\<not> isl (read_refs (new_cache [''0''] False) 2 1 ''lru'' refs_5_6_5_7 (Some (new_cache [''0''] True)))"
    by (simp add: run_defs)
  have b: "\<not> isl (run_simulation 2 1 ''lru'' [''0''] refs_5_6_5_7)"
    by (simp add: run_defs run_simulation_def)
  from a b read_refs_returns_None
         [of "new_cache [''0''] False" 2 1 "''lru''" refs_5_6_5_7 "Some (new_cache [''0''] True)"
             "projr (read_refs (new_cache [''0''] False) 2 1 ''lru'' refs_5_6_5_7 (Some (new_cache [''0''] True)))"
             "[''0'']" "projr (run_simulation 2 1 ''lru'' [''0''] refs_5_6_5_7)"]
  show ?thesis by simp
qed

text \<open>
  C6. The specification orders the two cycle totals: the total of the L1+L2 run is to be
  at most the total of the L1-only run. Since each total is the value returned by
  \<open>read_refs\<close>, a completed \<open>run_simulation\<close> never holds two integers, ordered or
  not.
\<close>

theorem cycle_totals_are_not_ordered_integers:
  "run_simulation n w pol keys refs = Inr out \<Longrightarrow>
     \<not> totals_ordered (total_cycles_with_l2 out) (total_cycles_with_l1_only out)"
  by (auto simp: run_simulation_def totals_ordered_def read_refs_returned split: sum.splits)

theorem cycle_totals_are_not_ordered_integers_witness:
  "\<not> isl (run_simulation 1 1 ''lru'' [''0'', ''1'']
             [fresh_ref (Some ''0'') (Some ''0'') 0, fresh_ref (Some ''0'') (Some ''1'') 2]) \<and>
   \<not> totals_ordered
       (total_cycles_with_l2 (projr (run_simulation 1 1 ''lru'' [''0'', ''1'']
             [fresh_ref (Some ''0'') (Some ''0'') 0, fresh_ref (Some ''0'') (Some ''1'') 2])))
       (total_cycles_with_l1_only (projr (run_simulation 1 1 ''lru'' [''0'', ''1'']
             [fresh_ref (Some ''0'') (Some ''0'') 0, fresh_ref (Some ''0'') (Some ''1'') 2])))"
proof -
  have a: "\<not> isl (run_simulation 1 1 ''lru'' [''0'', ''1'']
             [fresh_ref (Some ''0'') (Some ''0'') 0, fresh_ref (Some ''0'') (Some ''1'') 2])"
    by (simp add: run_defs run_simulation_def)
  from a cycle_totals_are_not_ordered_integers
         [of 1 1 "''lru''" "[''0'', ''1'']"
             "[fresh_ref (Some ''0'') (Some ''0'') 0, fresh_ref (Some ''0'') (Some ''1'') 2]"
             "projr (run_simulation 1 1 ''lru'' [''0'', ''1'']
                [fresh_ref (Some ''0'') (Some ''0'') 0, fresh_ref (Some ''0'') (Some ''1'') 2])"]
  show ?thesis by simp
qed

section \<open>Set capacity and write-back\<close>

lemma set_update_subset: "set (AList.update k v al) \<subseteq> insert (k, v) (set al)"
  by (induction al) auto

lemma map_of_store_set:
  "map_of (sets (store_set s k v)) k' = (if k' = k then Some v else map_of (sets s) k')"
  by (simp add: store_set_def update_conv')

lemma store_set_frame:
  "recently_used_addrs (store_set s k v) = recently_used_addrs s"
  "is_l2 (store_set s k v) = is_l2 s"
  by (simp_all add: store_set_def)

lemma store_set_all:
  assumes "\<forall>(k, bs) \<in> set (sets s). P k bs" and "P k0 v"
  shows "\<forall>(k, bs) \<in> set (sets (store_set s k0 v)). P k bs"
proof -
  have "set (sets (store_set s k0 v)) \<subseteq> insert (k0, v) (set (sets s))"
    by (simp add: store_set_def set_update_subset)
  with assms show ?thesis by auto
qed

lemma pushed_length:
  assumes "int (length blocks) \<le> n" and "int (length blocks) = n \<longrightarrow> blocks \<noteq> []"
  shows "int (length (pushed n blocks e)) \<le> n"
  using assms by (cases blocks) (auto simp: pushed_def)

lemma within_capacity_lookup:
  "within_capacity n s \<Longrightarrow> map_of (sets s) k = Some blocks \<Longrightarrow> int (length blocks) \<le> n"
  by (auto simp: within_capacity_def dest: map_of_SomeD)

text \<open>A store with empty sets, such as a constructed one, is within every non-negative
  bound.\<close>

lemma within_capacity_empty:
  "all_sets_empty c \<Longrightarrow> 0 \<le> n \<Longrightarrow> within_capacity n c"
  by (auto simp: all_sets_empty_def within_capacity_def)

lemma within_capacity_new_cache:
  "0 \<le> n \<Longrightarrow> within_capacity n (new_cache keys l2_flag)"
  by (rule within_capacity_empty) (auto simp: all_sets_empty_def new_cache_def)

lemma within_capacity_store_set:
  "within_capacity n s \<Longrightarrow> int (length v) \<le> n \<Longrightarrow> within_capacity n (store_set s k v)"
  unfolding within_capacity_def by (rule store_set_all) auto

lemma set_block_last_within_capacity:
  assumes "set_block s pol n idx e None = Inr (s', l')" and "within_capacity n s"
  shows "within_capacity n s'"
proof -
  from set_block_last[OF assms(1)] obtain blocks where
    b: "map_of (sets s) (set_key idx) = Some blocks"
       "int (length blocks) = n \<longrightarrow> blocks \<noteq> []"
       "s' = store_set s (set_key idx) (pushed n blocks e)"
    by blast
  from within_capacity_lookup[OF assms(2) b(1)] b(2)
  have "int (length (pushed n blocks e)) \<le> n" by (rule pushed_length)
  with assms(2) b(3) show ?thesis by (simp add: within_capacity_store_set)
qed

lemma set_block_within_capacity:
  assumes "set_block s pol n idx e l2o = Inr (s', l2o')"
      and "within_capacity n s"
      and "\<forall>l2. l2o = Some l2 \<longrightarrow> within_capacity n l2"
  shows "within_capacity n s' \<and> (\<forall>l2'. l2o' = Some l2' \<longrightarrow> within_capacity n l2')"
proof (cases l2o)
  case None
  with assms(1) set_block_last[of s pol n idx e s' l2o'] have "l2o' = None" by auto
  with None assms(1,2) set_block_last_within_capacity show ?thesis by auto
next
  case (Some l2)
  from set_block_next[OF assms(1)[unfolded Some]] obtain blocks where
    b: "map_of (sets s) (set_key idx) = Some blocks"
       "int (length blocks) = n \<longrightarrow> blocks \<noteq> []"
       "s' = store_set s (set_key idx) (pushed n blocks e)"
       "if int (length blocks) = n \<and> sets l2 \<noteq> [] \<and> \<not> is_l2 s
        then \<exists>l2'. set_block l2 pol n (index (hd blocks)) (hd blocks) None = Inr (l2', None) \<and>
                   l2o' = Some l2'
        else l2o' = Some l2"
    by blast
  from within_capacity_lookup[OF assms(2) b(1)] b(2)
  have "int (length (pushed n blocks e)) \<le> n" by (rule pushed_length)
  with assms(2) b(3) have s': "within_capacity n s'" by (simp add: within_capacity_store_set)
  from assms(3) Some have l2: "within_capacity n l2" by simp
  from b(4) l2 have "\<forall>l2'. l2o' = Some l2' \<longrightarrow> within_capacity n l2'"
    by (auto split: if_splits dest: set_block_last_within_capacity)
  with s' show ?thesis by simp
qed

lemma set_blocks_within_capacity:
  "set_blocks s pol n inserts l2o = Inr (s', l2o') \<Longrightarrow> within_capacity n s \<Longrightarrow>
     (\<forall>l2. l2o = Some l2 \<longrightarrow> within_capacity n l2) \<Longrightarrow>
     within_capacity n s' \<and> (\<forall>l2'. l2o' = Some l2' \<longrightarrow> within_capacity n l2')"
proof (induction inserts arbitrary: s l2o)
  case Nil
  then show ?case by auto
next
  case (Cons ins inserts)
  obtain idx e where ins: "ins = (idx, e)" by (cases ins)
  from Cons.prems(1) ins obtain s1 l1o where
    step: "set_block s pol n idx e l2o = Inr (s1, l1o)" and
    rest: "set_blocks s1 pol n inserts l1o = Inr (s', l2o')"
    by (auto split: sum.splits prod.splits)
  from set_block_within_capacity[OF step Cons.prems(2,3)]
  have "within_capacity n s1" "\<forall>l2. l1o = Some l2 \<longrightarrow> within_capacity n l2" by auto
  from Cons.IH[OF rest this] show ?case .
qed

lemma set_block_write_back:
  assumes "set_block s pol n idx e l2o = Inr (s', l2o')"
  shows "\<exists>blocks. map_of (sets s) (set_key idx) = Some blocks \<and>
          (if int (length blocks) = n \<and> cache_truthy l2o \<and> \<not> is_l2 s
           then blocks \<noteq> [] \<and>
                (\<exists>l2 l2'. l2o = Some l2 \<and>
                   set_block l2 pol n (index (hd blocks)) (hd blocks) None = Inr (l2', None) \<and>
                   l2o' = Some l2')
           else l2o' = l2o)"
proof (cases l2o)
  case None
  with assms set_block_last[of s pol n idx e s' l2o'] show ?thesis
    by (auto simp: cache_truthy_def)
next
  case (Some l2)
  with assms set_block_next[of s pol n idx e l2 s' l2o'] show ?thesis
    by (auto simp: cache_truthy_def split: if_splits)
qed

text \<open>
  C2. Along any sequence of \<open>set_block\<close> calls with a fixed \<open>num_blocks_per_set\<close>,
  started on stores whose sets are within that bound (as constructed stores are for a
  non-negative bound), every set of the store and of its next level holds at most
  \<open>num_blocks_per_set\<close> blocks after each call that completes. A call that finds its
  target set full with a next level attached (a non-empty \<open>l2_cache\<close>, the store
  itself not flagged \<open>is_l2\<close>) changes the next level by exactly one \<open>set_block\<close> of
  the evicted first block; any other call leaves the next level as it was.
\<close>

theorem set_block_capacity_and_single_write_back:
  "(set_blocks self pol n inserts l2o = Inr (self', l2o') \<and> within_capacity n self \<and>
      (\<forall>l2. l2o = Some l2 \<longrightarrow> within_capacity n l2) \<longrightarrow>
        within_capacity n self' \<and> (\<forall>l2'. l2o' = Some l2' \<longrightarrow> within_capacity n l2'))
   \<and> (set_block self pol n addr_index new_entry l2o = Inr (self1, l2o1) \<longrightarrow>
        (\<exists>blocks. map_of (sets self) (set_key addr_index) = Some blocks \<and>
          (if int (length blocks) = n \<and> cache_truthy l2o \<and> \<not> is_l2 self
           then blocks \<noteq> [] \<and>
                (\<exists>l2 l2'. l2o = Some l2 \<and>
                   set_block l2 pol n (index (hd blocks)) (hd blocks) None = Inr (l2', None) \<and>
                   l2o1 = Some l2')
           else l2o1 = l2o)))"
  using set_blocks_within_capacity[of self pol n inserts l2o self' l2o']
        set_block_write_back[of self pol n addr_index new_entry l2o self1 l2o1]
  by blast


theorem set_block_capacity_and_single_write_back_witness:
  "set_blocks (two_set_store [] [] False) ''lru'' 1
       [(Some ''0'', block_0), (Some ''0'', block_2)] (Some (two_set_store [] [] True)) =
     Inr (two_set_store [block_2] [] False, Some (two_set_store [block_0] [] True)) \<and>
   within_capacity 1 (two_set_store [] [] False) \<and>
   within_capacity 1 (two_set_store [] [] True) \<and>
   within_capacity 1 (two_set_store [block_2] [] False) \<and>
   within_capacity 1 (two_set_store [block_0] [] True) \<and>
   set_block (two_set_store [block_0] [] False) ''lru'' 1 (Some ''0'') block_2
       (Some (two_set_store [] [] True)) =
     Inr (two_set_store [block_2] [] False, Some (two_set_store [block_0] [] True)) \<and>
   set_block (two_set_store [] [] True) ''lru'' 1 (index block_0) block_0 None =
     Inr (two_set_store [block_0] [] True, None)"
  using set_block_capacity_and_single_write_back
          [of "two_set_store [] [] False" "''lru''" 1
              "[(Some ''0'', block_0), (Some ''0'', block_2)]" "Some (two_set_store [] [] True)"
              "two_set_store [block_2] [] False" "Some (two_set_store [block_0] [] True)"
              "Some ''0''" block_0 "two_set_store [block_0] [] False"
              "Some (two_set_store [] [] True)"]
        set_block_capacity_and_single_write_back
          [of "two_set_store [block_0] [] False" "''lru''" 1 "[]" "Some (two_set_store [] [] True)"
              "two_set_store [block_0] [] False" "Some (two_set_store [] [] True)"
              "Some ''0''" block_2 "two_set_store [block_2] [] False"
              "Some (two_set_store [block_0] [] True)"]
  by (simp add: two_set_store_def block_0_def block_2_def within_capacity_def run_defs)

section \<open>Eviction write-back into L2\<close>

text \<open>
  C4, as stated, fails: with one block per set, \<open>read_refs\<close> first writes the evicted
  block X back into L2 and then, for the same reference, fills L2 with the block of the
  missing reference, which displaces X from L2's one-block set. After the reference
  for word address 2 has been processed, the block of word address 0 it evicted from
  L1 is not in L2.
\<close>

theorem evicted_block_not_in_l2_after_reference:
  "read_refs (new_cache [''0'', ''1''] False) 1 1 ''lru'' [fresh_ref (Some ''0'') (Some ''0'') 0]
       (Some (new_cache [''0'', ''1''] True)) =
     Inr \<lparr>l1_out = two_set_store [block_0] [(Some ''0'', Some ''0'')] False,
          l2_out = Some (two_set_store [block_0] [] True),
          refs_out = [set_status (fresh_ref (Some ''0'') (Some ''0'') 0) miss],
          returned = None\<rparr> \<and>
   read_ref (two_set_store [block_0] [(Some ''0'', Some ''0'')] False) 1 1 ''lru''
       (fresh_ref (Some ''0'') (Some ''1'') 2) (Some (two_set_store [block_0] [] True)) =
     Inr (two_set_store [block_2] [(Some ''0'', Some ''0''), (Some ''0'', Some ''1'')] False,
          Some (two_set_store [block_2] [] True),
          set_status (fresh_ref (Some ''0'') (Some ''1'') 2) miss) \<and>
   get_block (two_set_store [block_2] [] True) (index block_0) (tag block_0) = None"
  by (simp add: two_set_store_def block_0_def block_2_def run_defs get_block_def)

lemma pushed_capacity_1:
  "int (length bs) \<le> 1 \<Longrightarrow> pushed 1 bs x = [x]"
  by (cases bs) (auto simp: pushed_def)

text \<open>
  C4, amended. With one block per set, a non-empty next level attached and within
  that bound, and the store itself not flagged \<open>is_l2\<close>: when \<open>set_block\<close> evicts the
  block X of a full set and X has a defined index, then right after that \<open>set_block\<close>
  call (before \<open>read_refs\<close> goes on to fill L2 for the same reference)
  \<open>get_block\<close> on the next level at X's index and tag returns X.
\<close>

theorem evicted_block_in_l2_right_after_write_back:
  assumes "set_block self pol 1 addr_index new_entry (Some l2) = Inr (self', l2o')"
      and "map_of (sets self) (set_key addr_index) = Some [x]"
      and "cache_truthy (Some l2)" and "\<not> is_l2 self"
      and "within_capacity 1 l2"
      and "index x = Some k"
  shows "\<exists>l2'. l2o' = Some l2' \<and> get_block l2' (index x) (tag x) = Some x"
proof -
  from set_block_next[OF assms(1)] assms(2,3,4)
  obtain l2' where wb: "set_block l2 pol 1 (index x) x None = Inr (l2', None)"
    and out: "l2o' = Some l2'"
    by (auto simp: cache_truthy_def)
  from set_block_last[OF wb] assms(6) obtain bs where
    bs: "map_of (sets l2) k = Some bs" and l2': "l2' = store_set l2 k (pushed 1 bs x)"
    by (auto simp: set_key_def)
  from within_capacity_lookup[OF assms(5) bs] have "pushed 1 bs x = [x]"
    by (rule pushed_capacity_1)
  with l2' assms(6) have "get_block l2' (index x) (tag x) = Some x"
    by (simp add: get_block_def map_of_store_set)
  with out show ?thesis by simp
qed

theorem evicted_block_in_l2_right_after_write_back_witness:
  "set_block (two_set_store [block_0] [(Some ''0'', Some ''0''), (Some ''0'', Some ''1'')] False)
       ''lru'' 1 (Some ''0'') block_2 (Some (two_set_store [block_0] [] True)) =
     Inr (two_set_store [block_2] [(Some ''0'', Some ''0''), (Some ''0'', Some ''1'')] False,
          Some (two_set_store [block_0] [] True)) \<and>
   map_of (sets (two_set_store [block_0] [(Some ''0'', Some ''0''), (Some ''0'', Some ''1'')] False))
       (set_key (Some ''0'')) = Some [block_0] \<and>
   cache_truthy (Some (two_set_store [block_0] [] True)) \<and>
   \<not> is_l2 (two_set_store [block_0] [(Some ''0'', Some ''0''), (Some ''0'', Some ''1'')] False) \<and>
   within_capacity 1 (two_set_store [block_0] [] True) \<and>
   index block_0 = Some ''0'' \<and>
   get_block (two_set_store [block_0] [] True) (index block_0) (tag block_0) = Some block_0"
  using evicted_block_in_l2_right_after_write_back
          [of "two_set_store [block_0] [(Some ''0'', Some ''0''), (Some ''0'', Some ''1'')] False"
              "''lru''" "Some ''0''" block_2 "two_set_store [block_0] [] True"
              "two_set_store [block_2] [(Some ''0'', Some ''0''), (Some ''0'', Some ''1'')] False"
              "Some (two_set_store [block_0] [] True)" block_0 "''0''"]
  by (simp add: two_set_store_def block_0_def block_2_def within_capacity_def run_defs get_block_def)

section \<open>Status of the references over the two passes\<close>

text \<open>
  C7, as stated, fails: \<open>run_simulation\<close> hands the same reference objects to both
  passes and \<open>read_refs\<close> assigns \<open>cache_status\<close> to every reference it processes, so
  the field is written twice in a run. The L1-only pass assigns whatever the reference
  held before: a reference that enters it with status \<open>hit\<close> leaves it with \<open>miss\<close>
  when it misses.
\<close>

theorem status_written_twice_in_a_run:
  "\<not> isl (run_simulation 1 1 ''lru'' [''0''] [fresh_ref None (Some ''101'') 5]) \<and>
   map status_writes (refs_after_l2_pass
       (projr (run_simulation 1 1 ''lru'' [''0''] [fresh_ref None (Some ''101'') 5]))) = [1] \<and>
   map status_writes (refs_after_l1_only_pass
       (projr (run_simulation 1 1 ''lru'' [''0''] [fresh_ref None (Some ''101'') 5]))) = [2] \<and>
   read_refs (new_cache [''0''] False) 1 1 ''lru''
       [\<lparr>ref_index = None, ref_tag = Some ''101'', word_addr = 5,
         cache_status = Some hit, status_writes = 1\<rparr>] None =
     Inr \<lparr>l1_out = \<lparr>sets = [(''0'', [\<lparr>tag = Some ''101'', index = None, data = [5]\<rparr>])],
                      recently_used_addrs = [(None, Some ''101'')], is_l2 = False\<rparr>,
          l2_out = None,
          refs_out = [\<lparr>ref_index = None, ref_tag = Some ''101'', word_addr = 5,
                        cache_status = Some miss, status_writes = 2\<rparr>],
          returned = None\<rparr>"
  by (simp add: run_defs run_simulation_def)

lemma set_block_last_intro:
  assumes "map_of (sets s) (set_key idx) = Some blocks"
      and "int (length blocks) = n \<longrightarrow> blocks \<noteq> []"
  shows "set_block s pol n idx e None = Inr (store_set s (set_key idx) (pushed n blocks e), None)"
  using assms unfolding set_block.simps(1)
  by (cases blocks) (auto simp: pushed_def store_set_def)

lemma set_block_l1_only:
  assumes "set_block s pol n idx e l2o = Inr (s', l2o')"
  shows "set_block s pol n idx e None = Inr (s', None)"
proof (cases l2o)
  case None
  with assms set_block_last[of s pol n idx e s' l2o'] show ?thesis by auto
next
  case (Some l2)
  from set_block_next[OF assms[unfolded Some]] obtain blocks where
    "map_of (sets s) (set_key idx) = Some blocks"
    "int (length blocks) = n \<longrightarrow> blocks \<noteq> []"
    "s' = store_set s (set_key idx) (pushed n blocks e)"
    by blast
  then show ?thesis by (simp add: set_block_last_intro)
qed

lemma read_ref_l1_only:
  assumes "read_ref self n w pol ref l2 = Inr (s', l2', ref')"
      and "ref_index ref2 = ref_index ref" "ref_tag ref2 = ref_tag ref"
      and "word_addr ref2 = word_addr ref"
  shows "\<exists>st. ref' = set_status ref st \<and>
               read_ref self n w pol ref2 None = Inr (s', None, set_status ref2 st)"
proof -
  have m: "mark_ref_as_last_seen self ref2 = mark_ref_as_last_seen self ref"
    using assms(2,3) by (simp add: mark_ref_as_last_seen_def)
  have g: "get_cache_entry ref2 w = get_cache_entry ref w"
    using assms(2,3,4) by (simp add: get_cache_entry_def)
  show ?thesis
  proof (cases "is_hit (mark_ref_as_last_seen self ref) (ref_index ref) (ref_tag ref)")
    case (Inl e)
    with assms(1) show ?thesis by (simp add: read_ref_def Let_def)
  next
    case (Inr h)
    show ?thesis
    proof (cases h)
      case True
      with Inr assms show ?thesis by (auto simp: read_ref_def Let_def m)
    next
      case False
      with Inr assms(1) obtain self2 l2c where
        sb: "set_block (mark_ref_as_last_seen self ref) pol n (ref_index ref)
               (get_cache_entry ref w) l2 = Inr (self2, l2c)"
        by (auto simp: read_ref_def Let_def split: sum.splits)
      with False Inr assms(1) have s': "s' = self2" and r': "ref' = set_status ref miss"
        by (auto simp: read_ref_def Let_def split: sum.splits option.splits if_splits bool.splits)
      from set_block_l1_only[OF sb] False Inr assms(2,3) s' r' show ?thesis
        by (auto simp: read_ref_def Let_def m g)
    qed
  qed
qed

lemma read_refs_l1_only:
  "read_refs self n w pol refs l2 = Inr r \<Longrightarrow>
   list_all2 (\<lambda>a b. ref_index a = ref_index b \<and> ref_tag a = ref_tag b \<and> word_addr a = word_addr b)
      refs2 refs \<Longrightarrow>
   \<exists>r2. read_refs self n w pol refs2 None = Inr r2 \<and> l1_out r2 = l1_out r \<and>
        map cache_status (refs_out r2) = map cache_status (refs_out r) \<and>
        map status_writes (refs_out r2) = map (\<lambda>x. Suc (status_writes x)) refs2"
proof (induction refs arbitrary: self l2 r refs2)
  case Nil
  then show ?case by auto
next
  case (Cons ref refs)
  from Cons.prems(2) obtain ref2 rest2 where
    refs2: "refs2 = ref2 # rest2" and
    same: "ref_index ref2 = ref_index ref" "ref_tag ref2 = ref_tag ref" "word_addr ref2 = word_addr ref" and
    rest_same: "list_all2 (\<lambda>a b. ref_index a = ref_index b \<and> ref_tag a = ref_tag b \<and> word_addr a = word_addr b) rest2 refs"
    by (auto simp: list_all2_Cons2)
  from Cons.prems(1) obtain self' l2' ref' r' where
    step: "read_ref self n w pol ref l2 = Inr (self', l2', ref')" and
    rest: "read_refs self' n w pol refs l2' = Inr r'" and
    r: "r = r'\<lparr>refs_out := ref' # refs_out r'\<rparr>"
    by (rule read_refs_unfold)
  from read_ref_l1_only[OF step same] obtain st where
    st: "ref' = set_status ref st"
        "read_ref self n w pol ref2 None = Inr (self', None, set_status ref2 st)"
    by blast
  from Cons.IH[OF rest rest_same] obtain r2' where
    r2': "read_refs self' n w pol rest2 None = Inr r2'" "l1_out r2' = l1_out r'"
         "map cache_status (refs_out r2') = map cache_status (refs_out r')"
         "map status_writes (refs_out r2') = map (\<lambda>x. Suc (status_writes x)) rest2"
    by blast
  show ?case
    using refs2 st r2' r by (simp add: set_status_def)
qed

lemma read_refs_refs_out:
  "read_refs self n w pol refs l2 = Inr r \<Longrightarrow>
     list_all2 (\<lambda>a b. ref_index a = ref_index b \<and> ref_tag a = ref_tag b \<and> word_addr a = word_addr b)
        (refs_out r) refs \<and>
     map status_writes (refs_out r) = map (\<lambda>x. Suc (status_writes x)) refs"
proof (induction refs arbitrary: self l2 r)
  case Nil
  then show ?case by auto
next
  case (Cons ref refs)
  from Cons.prems(1) obtain self' l2' ref' r' where
    step: "read_ref self n w pol ref l2 = Inr (self', l2', ref')" and
    rest: "read_refs self' n w pol refs l2' = Inr r'" and
    r: "r = r'\<lparr>refs_out := ref' # refs_out r'\<rparr>"
    by (rule read_refs_unfold)
  from read_ref_l1_only[OF step, of ref] obtain st where "ref' = set_status ref st" by auto
  with Cons.IH[OF rest] r show ?case by (simp add: set_status_def)
qed

text \<open>
  C7, amended. In a run that completes, each reference's \<open>cache_status\<close> is written
  once in each of the two passes, twice in all; the L1-only pass overwrites the status
  of the L1+L2 pass with the same value, because the top-level store evolves in the
  same way with and without a next level.
\<close>

theorem status_written_in_both_passes_with_equal_value:
  assumes "run_simulation n w pol keys refs = Inr out"
  shows "map cache_status (refs_after_l1_only_pass out) = map cache_status (refs_after_l2_pass out) \<and>
         map status_writes (refs_after_l2_pass out) = map (\<lambda>r. status_writes r + 1) refs \<and>
         map status_writes (refs_after_l1_only_pass out) = map (\<lambda>r. status_writes r + 2) refs"
proof -
  from assms obtain r1 r2 where
    p1: "read_refs (new_cache keys False) n w pol refs (Some (new_cache keys True)) = Inr r1" and
    p2: "read_refs (new_cache keys False) n w pol (refs_out r1) None = Inr r2" and
    out: "refs_after_l2_pass out = refs_out r1" "refs_after_l1_only_pass out = refs_out r2"
    by (auto simp: run_simulation_def split: sum.splits)
  from read_refs_refs_out[OF p1] have
    same: "list_all2 (\<lambda>a b. ref_index a = ref_index b \<and> ref_tag a = ref_tag b \<and> word_addr a = word_addr b)
             (refs_out r1) refs" and
    w1: "map status_writes (refs_out r1) = map (\<lambda>x. Suc (status_writes x)) refs"
    by auto
  from read_refs_l1_only[OF p1 same] p2 have
    eq: "map cache_status (refs_out r2) = map cache_status (refs_out r1)" and
    w2: "map status_writes (refs_out r2) = map (\<lambda>x. Suc (status_writes x)) (refs_out r1)"
    by auto
  from w2 have "map status_writes (refs_out r2) = map Suc (map status_writes (refs_out r1))"
    by simp
  with w1 have "map status_writes (refs_out r2) = map (\<lambda>r. status_writes r + 2) refs"
    by simp
  with eq w1 out show ?thesis by simp
qed

theorem status_written_in_both_passes_with_equal_value_witness:
  "\<not> isl (run_simulation 2 1 ''lru'' [''0''] refs_5_6_5_7) \<and>
   map cache_status (refs_after_l2_pass (projr (run_simulation 2 1 ''lru'' [''0''] refs_5_6_5_7))) =
     [Some miss, Some miss, Some hit, Some miss] \<and>
   map cache_status (refs_after_l1_only_pass (projr (run_simulation 2 1 ''lru'' [''0''] refs_5_6_5_7))) =
     [Some miss, Some miss, Some hit, Some miss]"
proof -
  have a: "\<not> isl (run_simulation 2 1 ''lru'' [''0''] refs_5_6_5_7)"
    by (simp add: run_defs run_simulation_def)
  have b: "map cache_status (refs_after_l2_pass (projr (run_simulation 2 1 ''lru'' [''0''] refs_5_6_5_7))) =
     [Some miss, Some miss, Some hit, Some miss]"
    by (simp add: run_defs run_simulation_def)
  from a b status_written_in_both_passes_with_equal_value
         [of 2 1 "''lru''" "[''0'']" refs_5_6_5_7 "projr (run_simulation 2 1 ''lru'' [''0''] refs_5_6_5_7)"]
  show ?thesis by simp
qed

section \<open>Uniqueness of tags within a set\<close>

subsection \<open>One set of the top level and the set of the next level with the same key\<close>

lemma tags_not_behind_refl:
  "distinct (map tag as) \<Longrightarrow> tags_not_behind as as"
  by (induction as) auto

lemma tags_not_behind_snoc:
  "tags_not_behind as bs \<Longrightarrow> length as = length bs \<Longrightarrow> tag x \<notin> tag ` set as \<Longrightarrow>
     tags_not_behind (as @ [e]) (bs @ [x])"
proof (induction as arbitrary: bs)
  case Nil
  then show ?case by simp
next
  case (Cons a as)
  then obtain b bs' where bs: "bs = b # bs'" by (cases bs) auto
  with Cons.prems have "tags_not_behind as bs'" "length as = length bs'" "tag x \<notin> tag ` set as"
    "tag a \<notin> tag ` set bs'" "tag a \<noteq> tag x"
    by auto
  with Cons.IH[of bs'] bs show ?case by auto
qed

lemma set_tl_subset: "set (tl xs) \<subseteq> set xs"
  by (cases xs) auto

lemma tags_not_behind_snoc_fill:
  "tags_not_behind as bs \<Longrightarrow> length as = length bs \<Longrightarrow> tag x \<notin> tag ` set as \<Longrightarrow>
     tag e \<notin> tag ` set as \<Longrightarrow>
     tags_not_behind (as @ [e]) (tl (bs @ [x]) @ [e])"
proof (induction as arbitrary: bs)
  case Nil
  then show ?case by simp
next
  case (Cons a as)
  then obtain b bs' where bs: "bs = b # bs'" by (cases bs) auto
  with Cons.prems have p: "tags_not_behind as bs'" "length as = length bs'" "tag x \<notin> tag ` set as"
    "tag e \<notin> tag ` set as" "tag a \<notin> tag ` set bs'" "tag a \<noteq> tag x" "tag a \<noteq> tag e"
    by auto
  have tl_eq: "tl ((bs' @ [x]) @ [e]) = tl (bs' @ [x]) @ [e]" by (cases bs') auto
  from p(5,6) set_tl_subset[of "bs' @ [x]"] have "tag a \<notin> tag ` set (tl (bs' @ [x]))" by auto
  with Cons.IH[OF p(1-4)] p(7) bs tl_eq show ?case by auto
qed

lemma pushed_distinct:
  "distinct (map tag xs) \<Longrightarrow> tag e \<notin> tag ` set xs \<Longrightarrow> distinct (map tag (pushed n xs e))"
  by (cases xs) (auto simp: pushed_def)

lemma pushed_set: "set (pushed n xs e) \<subseteq> insert e (set xs)"
  using set_tl_subset[of xs] by (auto simp: pushed_def)

lemma coupled_sets_refl:
  "distinct (map tag as) \<Longrightarrow> coupled_sets n as as"
  by (simp add: coupled_sets_def tags_not_behind_refl)

text \<open>The step of one missing reference on a pair of coupled sets, with write-back.\<close>

lemma coupled_sets_step:
  assumes da: "distinct (map tag as)" and db: "distinct (map tag bs)"
      and c: "coupled_sets n as bs"
      and e: "tag e \<notin> tag ` set as"
      and ne: "int (length as) = n \<longrightarrow> as \<noteq> []"
      and b1: "b1 = (if int (length as) = n then pushed n bs (hd as) else bs)"
      and b': "b' = (if tag e \<in> tag ` set b1 then b1 else pushed n b1 e)"
  shows "distinct (map tag b1) \<and> distinct (map tag b') \<and> coupled_sets n (pushed n as e) b'"
proof (cases "int (length as) = n")
  case False
  with c have eq: "bs = as" by (simp add: coupled_sets_def)
  with False b1 b' e have "b1 = as" "b' = pushed n as e" by (auto simp: pushed_def)
  moreover from da e have "distinct (map tag (pushed n as e))" by (rule pushed_distinct)
  ultimately show ?thesis using da by (simp add: coupled_sets_refl)
next
  case True
  with ne obtain x as0 where as: "as = x # as0" by (cases as) auto
  from True c have len: "length bs = length as" and nb: "tags_not_behind as bs"
    by (auto simp: coupled_sets_def)
  from len as obtain y bs0 where bs: "bs = y # bs0" by (cases bs) auto
  from nb as bs have x_bs0: "tag x \<notin> tag ` set bs0" and nb0: "tags_not_behind as0 bs0" by auto
  from len as bs have len0: "length as0 = length bs0" by simp
  from da as have x_as0: "tag x \<notin> tag ` set as0" by auto
  from e as have e_as0: "tag e \<notin> tag ` set as0" by auto
  from True len have fullb: "int (length bs) = n" by simp
  from True as have pa: "pushed n as e = as0 @ [e]" by (simp add: pushed_def)
  from True b1 as bs fullb have b1_eq: "b1 = bs0 @ [x]" by (simp add: pushed_def)
  from db bs x_bs0 have d1: "distinct (map tag b1)" by (auto simp: b1_eq)
  from fullb bs b1_eq have full1: "int (length b1) = n" by simp
  from pa as True have lpa: "int (length (pushed n as e)) = n" by simp
  show ?thesis
  proof (cases "tag e \<in> tag ` set b1")
    case True
    with b' have "b' = b1" by simp
    moreover from tags_not_behind_snoc[OF nb0 len0 x_as0, of e]
    have "tags_not_behind (as0 @ [e]) (bs0 @ [x])" .
    ultimately show ?thesis using d1 lpa pa b1_eq len0
      by (simp add: coupled_sets_def)
  next
    case False
    with b' full1 have b'_eq: "b' = tl (bs0 @ [x]) @ [e]" by (simp add: pushed_def b1_eq)
    from d1 False have "distinct (map tag (pushed n b1 e))" by (rule pushed_distinct)
    with b' False have d': "distinct (map tag b')" by simp
    from tags_not_behind_snoc_fill[OF nb0 len0 x_as0 e_as0]
    have "tags_not_behind (as0 @ [e]) (tl (bs0 @ [x]) @ [e])" .
    then show ?thesis using d1 d' lpa pa b'_eq len0
      by (simp add: coupled_sets_def)
  qed
qed

subsection \<open>The invariant on the stores\<close>

lemma tags_distinct_lookup:
  "tags_distinct s \<Longrightarrow> map_of (sets s) k = Some bs \<Longrightarrow> distinct (map tag bs)"
  by (auto simp: tags_distinct_def dest: map_of_SomeD)

lemma tags_distinct_store_set:
  "tags_distinct s \<Longrightarrow> distinct (map tag v) \<Longrightarrow> tags_distinct (store_set s k v)"
  unfolding tags_distinct_def by (rule store_set_all) auto

lemma keyed_lookup:
  "keyed s \<Longrightarrow> map_of (sets s) k = Some bs \<Longrightarrow> b \<in> set bs \<Longrightarrow> set_key (index b) = k"
  by (auto simp: keyed_def dest: map_of_SomeD)

lemma keyed_store_set:
  "keyed s \<Longrightarrow> \<forall>b \<in> set v. set_key (index b) = k \<Longrightarrow> keyed (store_set s k v)"
  unfolding keyed_def by (rule store_set_all) auto

lemma coupled_no_sets: "sets l2 = [] \<Longrightarrow> coupled n l1 l2"
  by (simp add: coupled_def)

lemma coupled_store_set:
  assumes "coupled n l1 l2"
      and "if is_l2 l1 then bs' = as' else coupled_sets n as' bs'"
  shows "coupled n (store_set l1 k as') (store_set l2 k bs')"
  using assms by (auto simp: coupled_def map_of_store_set store_set_frame)

lemma store_set_twice: "store_set (store_set s k v) k v' = store_set s k v'"
  by (simp add: store_set_def)

lemma is_hit_lookup:
  "is_hit s idx t = Inr h \<Longrightarrow> map_of (sets s) (set_key idx) = Some bs \<Longrightarrow>
     h = (t \<in> tag ` set bs)"
  by (auto simp: is_hit_def set_key_def list_ex_iff split: option.splits)

lemma is_hit_True_lookup:
  "is_hit s idx t = Inr True \<Longrightarrow> \<exists>bs. map_of (sets s) (set_key idx) = Some bs \<and> t \<in> tag ` set bs"
  by (auto simp: is_hit_def set_key_def list_ex_iff split: option.splits)

lemma hierarchy_inv_mark:
  "hierarchy_inv n (mark_ref_as_last_seen l1 ref) l2o = hierarchy_inv n l1 l2o"
  by (cases l2o) (simp_all add: hierarchy_inv_def tags_distinct_def keyed_def coupled_def mark_frame)

lemma get_cache_entry_fields:
  "tag (get_cache_entry ref w) = ref_tag ref" "index (get_cache_entry ref w) = ref_index ref"
  by (simp_all add: get_cache_entry_def)

lemma read_ref_hit:
  assumes "read_ref l1 n w pol ref l2o = Inr (l1', l2o', ref')"
      and "is_hit (mark_ref_as_last_seen l1 ref) (ref_index ref) (ref_tag ref) = Inr True"
  shows "l1' = mark_ref_as_last_seen l1 ref \<and> l2o' = l2o"
  using assms by (simp add: read_ref_def Let_def)

lemma read_ref_miss:
  assumes "read_ref l1 n w pol ref l2o = Inr (l1', l2o', ref')"
      and "is_hit (mark_ref_as_last_seen l1 ref) (ref_index ref) (ref_tag ref) = Inr False"
  shows "\<exists>l2c. set_block (mark_ref_as_last_seen l1 ref) pol n (ref_index ref)
                  (get_cache_entry ref w) l2o = Inr (l1', l2c) \<and>
           (case l2c of
              None \<Rightarrow> l2o' = None
            | Some l2a \<Rightarrow>
                if sets l2a = [] then l2o' = Some l2a
                else (is_hit l2a (ref_index ref) (ref_tag ref) = Inr True \<and> l2o' = Some l2a) \<or>
                     (is_hit l2a (ref_index ref) (ref_tag ref) = Inr False \<and>
                      (\<exists>l2b. set_block l2a pol n (ref_index ref) (get_cache_entry ref w) None =
                                Inr (l2b, None) \<and> l2o' = Some l2b)))"
proof -
  from assms obtain s2 l2c where
    sb: "set_block (mark_ref_as_last_seen l1 ref) pol n (ref_index ref)
           (get_cache_entry ref w) l2o = Inr (s2, l2c)"
    by (auto simp: read_ref_def Let_def split: sum.splits)
  show ?thesis
  proof (cases l2c)
    case None
    with assms sb show ?thesis by (auto simp: read_ref_def Let_def)
  next
    case (Some l2a)
    show ?thesis
    proof (cases "sets l2a = []")
      case True
      with assms sb Some show ?thesis by (auto simp: read_ref_def Let_def cache_truthy_def)
    next
      case False
      show ?thesis
      proof (cases "is_hit l2a (ref_index ref) (ref_tag ref)")
        case (Inl err)
        with assms sb Some False show ?thesis by (auto simp: read_ref_def Let_def cache_truthy_def)
      next
        case (Inr h)
        show ?thesis
        proof (cases h)
          case True
          with Inr assms sb Some False show ?thesis
            by (auto simp: read_ref_def Let_def cache_truthy_def)
        next
          case hf: False
          show ?thesis
          proof (cases "set_block l2a pol n (ref_index ref) (get_cache_entry ref w) None")
            case (Inl err)
            with hf Inr assms sb Some False show ?thesis
              by (auto simp: read_ref_def Let_def cache_truthy_def)
          next
            case res: (Inr res)
            obtain l2b x where r: "res = (l2b, x)" by (cases res)
            from set_block_last[of l2a pol n "ref_index ref" "get_cache_entry ref w" l2b x] res r
            have "x = None" by auto
            with r res hf Inr assms sb Some False show ?thesis
              by (auto simp: read_ref_def Let_def cache_truthy_def)
          qed
        qed
      qed
    qed
  qed
qed

lemma read_ref_inv:
  assumes run: "read_ref l1 n w pol ref l2o = Inr (l1', l2o', ref')"
      and inv: "hierarchy_inv n l1 l2o"
  shows "hierarchy_inv n l1' l2o'"
proof -
  define s1 where "s1 = mark_ref_as_last_seen l1 ref"
  define K where "K = set_key (ref_index ref)"
  define t where "t = ref_tag ref"
  define e where "e = get_cache_entry ref w"
  have e_tag: "tag e = t" and e_key: "set_key (index e) = K"
    by (simp_all add: e_def t_def K_def get_cache_entry_fields)
  from inv have inv1: "hierarchy_inv n s1 l2o" by (simp add: s1_def hierarchy_inv_mark)
  then have d1: "tags_distinct s1" and k1: "keyed s1" by (simp_all add: hierarchy_inv_def)
  from run obtain h where h: "is_hit s1 (ref_index ref) t = Inr h"
    by (cases "is_hit s1 (ref_index ref) t") (auto simp: read_ref_def Let_def s1_def t_def)
  show ?thesis
  proof (cases h)
    case True
    with read_ref_hit[OF run] h inv1 show ?thesis by (simp add: s1_def t_def)
  next
    case False
    with h have miss: "is_hit s1 (ref_index ref) t = Inr False" by simp
    from read_ref_miss[OF run miss[unfolded s1_def t_def]] obtain l2c where
      sb: "set_block s1 pol n (ref_index ref) e l2o = Inr (l1', l2c)" and
      fill: "case l2c of
              None \<Rightarrow> l2o' = None
            | Some l2a \<Rightarrow>
                if sets l2a = [] then l2o' = Some l2a
                else (is_hit l2a (ref_index ref) t = Inr True \<and> l2o' = Some l2a) \<or>
                     (is_hit l2a (ref_index ref) t = Inr False \<and>
                      (\<exists>l2b. set_block l2a pol n (ref_index ref) e None = Inr (l2b, None) \<and>
                             l2o' = Some l2b))"
      unfolding s1_def t_def e_def by blast
    from set_block_last[OF set_block_l1_only[OF sb]] obtain as where
      as: "map_of (sets s1) K = Some as" and
      ne: "int (length as) = n \<longrightarrow> as \<noteq> []" and
      l1': "l1' = store_set s1 K (pushed n as e)"
      unfolding K_def by blast
    from is_hit_lookup[OF miss as[unfolded K_def]] have t_as: "tag e \<notin> tag ` set as"
      by (simp add: e_tag)
    from tags_distinct_lookup[OF d1 as] have da: "distinct (map tag as)" .
    from da t_as have dpa: "distinct (map tag (pushed n as e))" by (rule pushed_distinct)
    with d1 l1' have d1': "tags_distinct l1'" by (simp add: tags_distinct_store_set)
    have "\<forall>b \<in> set (pushed n as e). set_key (index b) = K"
      using pushed_set[of n as e] keyed_lookup[OF k1 as] e_key by auto
    with k1 l1' have k1': "keyed l1'" by (simp add: keyed_store_set)
    show ?thesis
    proof (cases l2o)
      case None
      with sb set_block_last[of s1 pol n "ref_index ref" e l1' l2c] have "l2c = None" by auto
      with fill d1' k1' show ?thesis by (simp add: hierarchy_inv_def)
    next
      case (Some l2)
      with inv1 have d2: "tags_distinct l2" and cp: "coupled n s1 l2"
        by (simp_all add: hierarchy_inv_def)
      from set_block_next[OF sb[unfolded Some]] as have
        wb: "if int (length as) = n \<and> sets l2 \<noteq> [] \<and> \<not> is_l2 s1
             then \<exists>l2a. set_block l2 pol n (index (hd as)) (hd as) None = Inr (l2a, None) \<and>
                        l2c = Some l2a
             else l2c = Some l2"
        unfolding K_def by auto
      show ?thesis
      proof (cases "sets l2 = []")
        case True
        with wb have "l2c = Some l2" by simp
        with fill True have "l2o' = Some l2" by simp
        with d1' k1' d2 True show ?thesis by (simp add: hierarchy_inv_def coupled_no_sets)
      next
        case nonempty: False
        show ?thesis
        proof (cases "int (length as) = n \<and> \<not> is_l2 s1")
          case no_wb: False
          with wb have l2c: "l2c = Some l2" by auto
          from fill l2c nonempty have
            f: "(is_hit l2 (ref_index ref) t = Inr True \<and> l2o' = Some l2) \<or>
                (is_hit l2 (ref_index ref) t = Inr False \<and>
                 (\<exists>l2b. set_block l2 pol n (ref_index ref) e None = Inr (l2b, None) \<and>
                        l2o' = Some l2b))"
            by simp
          have same: "\<And>bs. map_of (sets l2) K = Some bs \<Longrightarrow> bs = as"
          proof -
            fix bs assume "map_of (sets l2) K = Some bs"
            with cp as have "if is_l2 s1 then bs = as else coupled_sets n as bs"
              by (simp add: coupled_def)
            with no_wb show "bs = as" by (auto simp: coupled_sets_def split: if_splits)
          qed
          from f show ?thesis
          proof
            assume "is_hit l2 (ref_index ref) t = Inr True \<and> l2o' = Some l2"
            with is_hit_True_lookup[of l2 "ref_index ref" t] same t_as e_tag
            show ?thesis by (auto simp: K_def)
          next
            assume "is_hit l2 (ref_index ref) t = Inr False \<and>
                 (\<exists>l2b. set_block l2 pol n (ref_index ref) e None = Inr (l2b, None) \<and>
                        l2o' = Some l2b)"
            then obtain l2b where
              fb: "set_block l2 pol n (ref_index ref) e None = Inr (l2b, None)" and
              out: "l2o' = Some l2b" by blast
            from set_block_last[OF fb] obtain bs where
              bs: "map_of (sets l2) K = Some bs" and
              l2b: "l2b = store_set l2 K (pushed n bs e)"
              unfolding K_def by blast
            from same[OF bs] l2b have l2b': "l2b = store_set l2 K (pushed n as e)" by simp
            with d2 dpa have d2': "tags_distinct l2b" by (simp add: tags_distinct_store_set)
            have "coupled n (store_set s1 K (pushed n as e)) (store_set l2 K (pushed n as e))"
              using cp by (rule coupled_store_set) (simp add: coupled_sets_refl dpa)
            with l1' l2b' out d1' k1' d2' show ?thesis by (simp add: hierarchy_inv_def)
          qed
        next
          case with_wb: True
          then have full: "int (length as) = n" and not_l2: "\<not> is_l2 s1" by simp_all
          from ne full obtain x as0 where as_eq: "as = x # as0" by (cases as) auto
          from wb full nonempty not_l2 as_eq obtain l2a where
            wba: "set_block l2 pol n (index x) x None = Inr (l2a, None)" and
            l2c: "l2c = Some l2a"
            by auto
          from keyed_lookup[OF k1 as, of x] as_eq have xk: "set_key (index x) = K" by simp
          from set_block_last[OF wba] xk obtain bs where
            bs: "map_of (sets l2) K = Some bs" and
            l2a: "l2a = store_set l2 K (pushed n bs x)"
            by auto
          from cp as bs not_l2 have cs: "coupled_sets n as bs" by (simp add: coupled_def)
          from tags_distinct_lookup[OF d2 bs] have db: "distinct (map tag bs)" .
          define b1 where "b1 = pushed n bs x"
          define b' where "b' = (if tag e \<in> tag ` set b1 then b1 else pushed n b1 e)"
          from as_eq have "hd as = x" by simp
          with full have b1_ok: "b1 = (if int (length as) = n then pushed n bs (hd as) else bs)"
            unfolding b1_def by simp
          have b'_ok: "b' = (if tag e \<in> tag ` set b1 then b1 else pushed n b1 e)"
            by (rule b'_def)
          from coupled_sets_step[OF da db cs t_as ne b1_ok b'_ok]
          have st: "distinct (map tag b1)" "distinct (map tag b')"
                   "coupled_sets n (pushed n as e) b'"
            by blast+
          have l2a_K: "map_of (sets l2a) K = Some b1"
            unfolding l2a b1_def by (simp add: map_of_store_set)
          have l2a_ne: "sets l2a \<noteq> []"
            unfolding l2a by (simp add: store_set_def)
          from d2 st(1) l2a have d2a: "tags_distinct l2a"
            by (simp add: b1_def tags_distinct_store_set)
          from fill l2c l2a_ne have
            f: "(is_hit l2a (ref_index ref) t = Inr True \<and> l2o' = Some l2a) \<or>
                (is_hit l2a (ref_index ref) t = Inr False \<and>
                 (\<exists>l2b. set_block l2a pol n (ref_index ref) e None = Inr (l2b, None) \<and>
                        l2o' = Some l2b))"
            by simp
          have "\<exists>l2'. l2o' = Some l2' \<and> l2' = store_set l2 K b' \<and> tags_distinct l2'"
            using f
          proof
            assume a: "is_hit l2a (ref_index ref) t = Inr True \<and> l2o' = Some l2a"
            with is_hit_lookup[OF _ l2a_K[unfolded K_def], of t True] have "tag e \<in> tag ` set b1"
              by (simp add: e_tag)
            then have "b' = b1" by (simp add: b'_def)
            with a l2a d2a show ?thesis by (simp add: b1_def)
          next
            assume "is_hit l2a (ref_index ref) t = Inr False \<and>
                 (\<exists>l2b. set_block l2a pol n (ref_index ref) e None = Inr (l2b, None) \<and>
                        l2o' = Some l2b)"
            then obtain l2b where
              hf: "is_hit l2a (ref_index ref) t = Inr False" and
              fb: "set_block l2a pol n (ref_index ref) e None = Inr (l2b, None)" and
              out: "l2o' = Some l2b" by blast
            from is_hit_lookup[OF hf l2a_K[unfolded K_def]] have "tag e \<notin> tag ` set b1"
              by (simp add: e_tag)
            then have b'_eq: "b' = pushed n b1 e" by (simp add: b'_def)
            from set_block_last[OF fb] l2a_K have "l2b = store_set l2a K (pushed n b1 e)"
              unfolding K_def by auto
            with l2a b'_eq have l2b: "l2b = store_set l2 K b'" by (simp add: store_set_twice)
            with d2 st(2) have "tags_distinct l2b" by (simp add: tags_distinct_store_set)
            with out l2b show ?thesis by simp
          qed
          then obtain l2' where out: "l2o' = Some l2'" and l2': "l2' = store_set l2 K b'"
            and d2': "tags_distinct l2'" by blast
          have "coupled n (store_set s1 K (pushed n as e)) (store_set l2 K b')"
            using cp by (rule coupled_store_set) (simp add: not_l2 st(3))
          with l1' l2' out d1' k1' d2' show ?thesis by (simp add: hierarchy_inv_def)
        qed
      qed
    qed
  qed
qed

lemma read_refs_inv:
  "read_refs l1 n w pol refs l2o = Inr r \<Longrightarrow> hierarchy_inv n l1 l2o \<Longrightarrow>
     hierarchy_inv n (l1_out r) (l2_out r)"
proof (induction refs arbitrary: l1 l2o r)
  case Nil
  then show ?case by auto
next
  case (Cons ref refs)
  from Cons.prems(1) obtain l1' l2o' ref' r' where
    step: "read_ref l1 n w pol ref l2o = Inr (l1', l2o', ref')" and
    rest: "read_refs l1' n w pol refs l2o' = Inr r'" and
    r: "r = r'\<lparr>refs_out := ref' # refs_out r'\<rparr>"
    by (rule read_refs_unfold)
  from Cons.IH[OF rest read_ref_inv[OF step Cons.prems(2)]] r show ?case by simp
qed

lemma all_sets_empty_lookup:
  "all_sets_empty c \<Longrightarrow> map_of (sets c) k = Some bs \<Longrightarrow> bs = []"
  by (auto simp: all_sets_empty_def dest: map_of_SomeD)

lemma hierarchy_inv_empty:
  assumes "all_sets_empty l1" and "\<forall>l2. l2o = Some l2 \<longrightarrow> all_sets_empty l2"
  shows "hierarchy_inv n l1 l2o"
proof -
  from assms(1) have "tags_distinct l1" "keyed l1"
    by (auto simp: all_sets_empty_def tags_distinct_def keyed_def)
  moreover have "tags_distinct l2 \<and> coupled n l1 l2" if "l2o = Some l2" for l2
  proof -
    from that assms(2) have e2: "all_sets_empty l2" by simp
    then have "tags_distinct l2" by (auto simp: all_sets_empty_def tags_distinct_def)
    moreover have "coupled n l1 l2"
      unfolding coupled_def
    proof (intro allI impI)
      fix k as bs
      assume "map_of (sets l1) k = Some as" "map_of (sets l2) k = Some bs"
      with all_sets_empty_lookup[OF assms(1)] all_sets_empty_lookup[OF e2]
      have "as = []" "bs = []" by blast+
      then show "if is_l2 l1 then bs = as else coupled_sets n as bs"
        by (simp add: coupled_sets_def)
    qed
    ultimately show ?thesis by simp
  qed
  ultimately show ?thesis by (cases l2o) (auto simp: hierarchy_inv_def)
qed

subsection \<open>Tags stay pairwise distinct\<close>

text \<open>
  C3. After \<open>read_refs\<close> has run over any reference sequence on a store and an
  optional next level that both started with empty sets (as \<open>run_simulation\<close>
  constructs them), the tags within every set of the store are pairwise distinct, and
  so are the tags within every set of the next level, which is filled both by the
  eviction write-back and by the fill on a miss. The top-level store inserts a block
  only after a miss on its tag; the write-back into the next level is not guarded by a
  hit test, and stays free of repetitions because a block of the top level is never
  further from eviction in the next level than in the top level.
\<close>

theorem tags_unique_after_read_refs:
  assumes "read_refs l1 n w pol refs l2o = Inr r"
      and "all_sets_empty l1" and "\<forall>l2. l2o = Some l2 \<longrightarrow> all_sets_empty l2"
  shows "tags_distinct (l1_out r) \<and> (\<forall>l2'. l2_out r = Some l2' \<longrightarrow> tags_distinct l2')"
proof -
  from read_refs_inv[OF assms(1) hierarchy_inv_empty[OF assms(2,3)]]
  show ?thesis by (cases "l2_out r") (auto simp: hierarchy_inv_def)
qed

theorem tags_unique_after_read_refs_witness:
  "\<not> isl (read_refs (new_cache [''0''] False) 2 1 ''lru'' refs_5_6_5_7 (Some (new_cache [''0''] True))) \<and>
   all_sets_empty (new_cache [''0''] False) \<and> all_sets_empty (new_cache [''0''] True) \<and>
   sets (l1_out (projr (read_refs (new_cache [''0''] False) 2 1 ''lru'' refs_5_6_5_7
                          (Some (new_cache [''0''] True))))) =
     [(''0'', [\<lparr>tag = Some ''110'', index = None, data = [6]\<rparr>,
               \<lparr>tag = Some ''111'', index = None, data = [7]\<rparr>])] \<and>
   map_option sets (l2_out (projr (read_refs (new_cache [''0''] False) 2 1 ''lru'' refs_5_6_5_7
                          (Some (new_cache [''0''] True))))) =
     Some [(''0'', [\<lparr>tag = Some ''101'', index = None, data = [5]\<rparr>,
                    \<lparr>tag = Some ''111'', index = None, data = [7]\<rparr>])] \<and>
   tags_distinct (l1_out (projr (read_refs (new_cache [''0''] False) 2 1 ''lru'' refs_5_6_5_7
                          (Some (new_cache [''0''] True))))) \<and>
   pred_option tags_distinct (l2_out (projr (read_refs (new_cache [''0''] False) 2 1 ''lru''
                          refs_5_6_5_7 (Some (new_cache [''0''] True)))))"
proof -
  have a: "\<not> isl (read_refs (new_cache [''0''] False) 2 1 ''lru'' refs_5_6_5_7 (Some (new_cache [''0''] True)))"
    by (simp add: run_defs)
  have b: "all_sets_empty (new_cache [''0''] False)" "all_sets_empty (new_cache [''0''] True)"
    by (simp_all add: all_sets_empty_def new_cache_def)
  have c: "sets (l1_out (projr (read_refs (new_cache [''0''] False) 2 1 ''lru'' refs_5_6_5_7
                          (Some (new_cache [''0''] True))))) =
     [(''0'', [\<lparr>tag = Some ''110'', index = None, data = [6]\<rparr>,
               \<lparr>tag = Some ''111'', index = None, data = [7]\<rparr>])]"
    by (simp add: run_defs)
  have d: "map_option sets (l2_out (projr (read_refs (new_cache [''0''] False) 2 1 ''lru'' refs_5_6_5_7
                          (Some (new_cache [''0''] True))))) =
     Some [(''0'', [\<lparr>tag = Some ''101'', index = None, data = [5]\<rparr>,
                    \<lparr>tag = Some ''111'', index = None, data = [7]\<rparr>])]"
    by (simp add: run_defs)
  from a have e: "read_refs (new_cache [''0''] False) 2 1 ''lru'' refs_5_6_5_7 (Some (new_cache [''0''] True)) =
     Inr (projr (read_refs (new_cache [''0''] False) 2 1 ''lru'' refs_5_6_5_7 (Some (new_cache [''0''] True))))"
    by simp
  from tags_unique_after_read_refs[OF e b(1)] b(2)
  have "tags_distinct (l1_out (projr (read_refs (new_cache [''0''] False) 2 1 ''lru'' refs_5_6_5_7
                          (Some (new_cache [''0''] True))))) \<and>
   pred_option tags_distinct (l2_out (projr (read_refs (new_cache [''0''] False) 2 1 ''lru''
                          refs_5_6_5_7 (Some (new_cache [''0''] True)))))"
    by (auto simp: pred_option_def[abs_def] split: option.splits)
  with a b c d show ?thesis by simp
qed

text \<open>
  The start from empty stores matters for the next level: paired with a new top-level
  store, a next level that already holds blocks can receive a tag twice, here the
  block of word address 2 after the references 2, 1, 0, 3 with three blocks per set.
\<close>

lemma next_level_filled_beforehand_can_repeat_a_tag:
  "map_option sets (l2_out (projr (read_refs (new_cache [''0''] False) 3 1 ''lru''
       [fresh_ref None (Some ''10'') 2, fresh_ref None (Some ''01'') 1,
        fresh_ref None (Some ''00'') 0, fresh_ref None (Some ''11'') 3]
       (Some \<lparr>sets = [(''0'', [\<lparr>tag = Some ''00'', index = None, data = [0]\<rparr>,
                               \<lparr>tag = Some ''01'', index = None, data = [1]\<rparr>,
                               \<lparr>tag = Some ''10'', index = None, data = [2]\<rparr>])],
               recently_used_addrs = [], is_l2 = True\<rparr>)))) =
     Some [(''0'', [\<lparr>tag = Some ''10'', index = None, data = [2]\<rparr>,
                    \<lparr>tag = Some ''10'', index = None, data = [2]\<rparr>,
                    \<lparr>tag = Some ''11'', index = None, data = [3]\<rparr>])]"
  by (simp add: run_defs)

end
